theory Spec2Isabelle
  imports Main "HOL-Library.Word" "HOL-Library.AList"
begin

unbundle bit_operations_syntax

section \<open>Data model\<close>

text \<open>
  The module \<^verbatim>\<open>disassembler.py\<close> works on CPython code objects. A
  \<^verbatim>\<open>bytes\<close> value is a list of 8-bit words, a Python integer is an \<open>int\<close>.
  The constant pool of a code object may hold further code objects, so values and code
  objects are defined together. The five tables that \<^verbatim>\<open>get_argvalue\<close> reads are
  optional: \<open>None\<close> stands for Python's \<^verbatim>\<open>None\<close> in place of the tuple.
\<close>

type_synonym byte = "8 word"

datatype error = TypeError | IndexError

datatype pyval = PNone | PInt int | PStr string | PCode code
and code = Code
  (co_code: "byte list")
  (co_consts: "pyval list option")
  (co_varnames: "string list option")
  (co_names: "string list option")
  (co_cellvars: "string list option")
  (co_freevars: "string list option")
  (co_lnotab: "byte list")
  (co_firstlineno: int)

text \<open>
  What the module takes from outside itself: the constants and classification tables of the
  standard \<^verbatim>\<open>dis\<close> module, and the built-in \<^verbatim>\<open>repr\<close> on the two kinds of
  object it is applied to that have no fixed text here (a \<^verbatim>\<open>str\<close>, and the function
  object \<^verbatim>\<open>get_argvalue\<close>, whose text holds a memory address). They are parameters
  of every definition below. \<open>opname\<close> is the table of 256 mnemonics, read at a byte.
\<close>

record pyenv =
  HAVE_ARGUMENT :: int
  EXTENDED_ARG :: int
  hasconst :: "int list"
  hasname :: "int list"
  hasjrel :: "int list"
  hasjabs :: "int list"
  haslocal :: "int list"
  hascompare :: "int list"
  hasfree :: "int list"
  cmp_op :: "string list"
  opname :: "int \<Rightarrow> string"
  repr_str :: "string \<Rightarrow> string"
  repr_get_argvalue :: string

text \<open>
  The tables of CPython 3.8 (\<^verbatim>\<open>Lib/opcode.py\<close>), the interpreter generation the
  module's header sizes are written for, as a sample environment for concrete runs. Its
  \<open>opname\<close> spells out only the mnemonics used in the examples below. Its \<open>repr_str\<close> is
  \<^verbatim>\<open>repr\<close> on printable ASCII text with the usual escapes: double quotes when the text
  holds a single quote and no double quote, single quotes otherwise, and a backslash before
  a backslash, the chosen quote, and for newline, carriage return and tab. The text of the
  function object stands for one run of the interpreter.
\<close>

definition cpython38 :: pyenv where
  "cpython38 = \<lparr>
     HAVE_ARGUMENT = 90,
     EXTENDED_ARG = 144,
     hasconst = [100],
     hasname = [90, 91, 95, 96, 97, 98, 101, 106, 108, 109, 116, 160],
     hasjrel = [93, 110, 122, 143, 154, 162],
     hasjabs = [111, 112, 113, 114, 115],
     haslocal = [124, 125, 126],
     hascompare = [107],
     hasfree = [135, 136, 137, 138, 148],
     cmp_op = [''<'', ''<='', ''=='', ''!='', ''>'', ''>='', ''in'', ''not in'', ''is'',
               ''is not'', ''exception match'', ''BAD''],
     opname = (\<lambda>op. if op = 1 then ''POP_TOP'' else if op = 9 then ''NOP''
                    else if op = 83 then ''RETURN_VALUE''
                    else if op = 100 then ''LOAD_CONST''
                    else if op = 110 then ''JUMP_FORWARD''
                    else if op = 113 then ''JUMP_ABSOLUTE''
                    else if op = 144 then ''EXTENDED_ARG'' else ''<op>''),
     repr_str = (\<lambda>s.
        let q = (if CHR 0x27 \<in> set s \<and> CHR 0x22 \<notin> set s then CHR 0x22 else CHR 0x27)
        in q # concat (map (\<lambda>ch. if ch = CHR 0x5C then [CHR 0x5C, CHR 0x5C]
                                  else if ch = q then [CHR 0x5C, q]
                                  else if ch = CHR 0x0A then [CHR 0x5C, CHR ''n'']
                                  else if ch = CHR 0x0D then [CHR 0x5C, CHR ''r'']
                                  else if ch = CHR 0x09 then [CHR 0x5C, CHR ''t'']
                                  else [ch]) s) @ [q]),
     repr_get_argvalue = ''<function get_argvalue at 0x7f3a5c0d1e50>''
   \<rparr>"

section \<open>Instruction stream decoder\<close>

text \<open>
  An instruction as \<^verbatim>\<open>unpack_op\<close> yields it: offset, opcode, and the operand or
  \<^verbatim>\<open>None\<close>.
\<close>

type_synonym instr = "int \<times> int \<times> int option"

text \<open>\<^verbatim>\<open>range(0, n, 2)\<close>.\<close>

definition range2 :: "nat \<Rightarrow> nat list" where
  "range2 n = map (\<lambda>k. 2 * k) [0..<(n + 1) div 2]"

text \<open>
  One pass through the body of the loop of \<^verbatim>\<open>unpack_op\<close>, at index \<open>i\<close> (always
  below the length) with the current value of \<^verbatim>\<open>extended_arg\<close>: the instruction
  yielded and the new value of \<^verbatim>\<open>extended_arg\<close>, or the \<^verbatim>\<open>IndexError\<close> of
  \<^verbatim>\<open>bytecode[i+1]\<close> read past the end.
\<close>

definition unpack_body :: "pyenv \<Rightarrow> byte list \<Rightarrow> nat \<Rightarrow> int \<Rightarrow> error + (instr \<times> int)" where
  "unpack_body e bytecode i extended_arg =
     (let opcode = uint (bytecode ! i) in
      if opcode \<ge> HAVE_ARGUMENT e then
        (if i + 1 < length bytecode then
           (let oparg = uint (bytecode ! (i + 1)) OR extended_arg;
                extended_arg' = (if opcode = EXTENDED_ARG e then push_bit 8 oparg else 0)
            in Inr ((int i, opcode, Some oparg), extended_arg'))
         else Inl IndexError)
      else Inr ((int i, opcode, None), extended_arg))"

text \<open>
  The loop over the indices. \<^verbatim>\<open>unpack_op\<close> is a generator: what it has yielded before
  an exception has already reached its consumer. The result is the list of instructions
  yielded and the exception that ended the iteration, if any.
\<close>

fun unpack_loop :: "pyenv \<Rightarrow> byte list \<Rightarrow> nat list \<Rightarrow> int \<Rightarrow> instr list \<times> error option" where
  "unpack_loop e bytecode [] extended_arg = ([], None)"
| "unpack_loop e bytecode (i # is) extended_arg =
     (case unpack_body e bytecode i extended_arg of
        Inl err \<Rightarrow> ([], Some err)
      | Inr (ins, extended_arg') \<Rightarrow>
          (case unpack_loop e bytecode is extended_arg' of
             (rest, err) \<Rightarrow> (ins # rest, err)))"

definition unpack_op :: "pyenv \<Rightarrow> byte list \<Rightarrow> instr list \<times> error option" where
  "unpack_op e bytecode = unpack_loop e bytecode (range2 (length bytecode)) 0"

text \<open>
  Modelled on the wording of C3 as amended, to be compared with the decoder above: the
  value of the accumulator before the \<open>k\<close>-th instruction (the one at offset \<open>2 * k\<close>).
  It starts at zero; an opcode below the has-argument threshold leaves it as it was, the
  extended-argument opcode sets it to its operand shifted left by 8, and every other opcode
  resets it to zero. \<open>decoded_spec\<close> is the \<open>k\<close>-th instruction with that accumulator
  merged into the operand byte.
\<close>

fun accumulator_spec :: "pyenv \<Rightarrow> byte list \<Rightarrow> nat \<Rightarrow> int" where
  "accumulator_spec e bytecode 0 = 0"
| "accumulator_spec e bytecode (Suc k) =
     (if uint (bytecode ! (2 * k)) < HAVE_ARGUMENT e then accumulator_spec e bytecode k
      else if uint (bytecode ! (2 * k)) = EXTENDED_ARG e
        then push_bit 8 (uint (bytecode ! (2 * k + 1)) OR accumulator_spec e bytecode k)
      else 0)"

definition decoded_spec :: "pyenv \<Rightarrow> byte list \<Rightarrow> nat \<Rightarrow> instr" where
  "decoded_spec e bytecode k =
     (int (2 * k), uint (bytecode ! (2 * k)),
      if uint (bytecode ! (2 * k)) < HAVE_ARGUMENT e then None
      else Some (uint (bytecode ! (2 * k + 1)) OR accumulator_spec e bytecode k))"

section \<open>Line table decoder\<close>

text \<open>The slice \<^verbatim>\<open>xs[0::2]\<close>; \<^verbatim>\<open>xs[1::2]\<close> is the same slice of \<open>drop 1 xs\<close>.\<close>

fun slice_step2 :: "'a list \<Rightarrow> 'a list" where
  "slice_step2 [] = []"
| "slice_step2 [x] = [x]"
| "slice_step2 (x # y # xs) = x # slice_step2 xs"

text \<open>
  A Python \<^verbatim>\<open>dict\<close> is an association list in insertion order; the assignment
  \<^verbatim>\<open>d[k] = v\<close> is \<open>AList.update\<close>, which replaces the value of a key that is
  present in place and appends a new key at the end.

  The loop of \<^verbatim>\<open>find_linestarts\<close> over the zipped increments, with the running
  \<^verbatim>\<open>byte\<close>, \<^verbatim>\<open>line\<close> and \<^verbatim>\<open>linestart_dict\<close>.
\<close>

fun linestarts_loop ::
  "(byte \<times> byte) list \<Rightarrow> int \<Rightarrow> int \<Rightarrow> (int \<times> int) list \<Rightarrow> (int \<times> int) list" where
  "linestarts_loop [] byte line linestart_dict = linestart_dict"
| "linestarts_loop ((byte_incr, line_incr) # rest) byte line linestart_dict =
     (let byte' = byte + uint byte_incr;
          line_incr' = (if uint line_incr \<ge> 0x80 then uint line_incr - 0x100
                        else uint line_incr);
          line' = line + line_incr'
      in linestarts_loop rest byte' line' (AList.update byte' line' linestart_dict))"

definition find_linestarts :: "code \<Rightarrow> (int \<times> int) list" where
  "find_linestarts codeobj =
     (let byte_increments = slice_step2 (co_lnotab codeobj);
          line_increments = slice_step2 (drop 1 (co_lnotab codeobj))
      in linestarts_loop (zip byte_increments line_increments) 0 (co_firstlineno codeobj)
           [(0, co_firstlineno codeobj)])"

section \<open>Operand value resolver\<close>

text \<open>
  Subscription \<^verbatim>\<open>xs[i]\<close> of a tuple or list: \<^verbatim>\<open>None\<close> as the index is a
  \<^verbatim>\<open>TypeError\<close>, a negative index counts from the end, and an index outside the
  sequence is an \<^verbatim>\<open>IndexError\<close>.
\<close>

fun subscript :: "'a list \<Rightarrow> int option \<Rightarrow> error + 'a" where
  "subscript xs None = Inl TypeError"
| "subscript xs (Some i) =
     (if 0 \<le> i \<and> i < int (length xs) then Inr (xs ! nat i)
      else if - int (length xs) \<le> i \<and> i < 0 then Inr (xs ! nat (int (length xs) + i))
      else Inl IndexError)"

text \<open>
  \<^verbatim>\<open>get_argvalue\<close>. The concatenation \<^verbatim>\<open>co_cellvars + co_freevars\<close> is
  evaluated before the dispatch on the opcode and raises \<^verbatim>\<open>TypeError\<close> when either
  operand is \<^verbatim>\<open>None\<close>. The sum \<^verbatim>\<open>offset + 2 + oparg\<close> raises
  \<^verbatim>\<open>TypeError\<close> when \<^verbatim>\<open>oparg\<close> is \<^verbatim>\<open>None\<close>; its value is then replaced
  by the text of the function object.
\<close>

definition get_argvalue :: "pyenv \<Rightarrow> int \<Rightarrow> code \<Rightarrow> int \<Rightarrow> int option \<Rightarrow> error + pyval" where
  "get_argvalue e offset codeobj opcode oparg =
     (case (co_cellvars codeobj, co_freevars codeobj) of
        (Some cellvars, Some freevars) \<Rightarrow>
          (let cell_names = cellvars @ freevars in
           if opcode \<in> set (hasconst e) then
             (case co_consts codeobj of
                None \<Rightarrow> Inr PNone
              | Some constants \<Rightarrow>
                  (case subscript constants oparg of
                     Inl err \<Rightarrow> Inl err
                   | Inr (PStr s) \<Rightarrow> Inr (PStr (repr_str e s))
                   | Inr PNone \<Rightarrow> Inr (PStr ''None'')
                   | Inr argval \<Rightarrow> Inr argval))
           else if opcode \<in> set (hasname e) then
             (case co_names codeobj of
                None \<Rightarrow> Inr PNone
              | Some names \<Rightarrow> map_sum id PStr (subscript names oparg))
           else if opcode \<in> set (hasjrel e) then
             (case oparg of
                None \<Rightarrow> Inl TypeError
              | Some a \<Rightarrow>
                  (let argval = offset + 2 + a
                   in Inr (PStr (''to '' @ repr_get_argvalue e))))
           else if opcode \<in> set (haslocal e) then
             (case co_varnames codeobj of
                None \<Rightarrow> Inr PNone
              | Some varnames \<Rightarrow> map_sum id PStr (subscript varnames oparg))
           else if opcode \<in> set (hascompare e) then
             map_sum id PStr (subscript (cmp_op e) oparg)
           else if opcode \<in> set (hasfree e) then
             map_sum id PStr (subscript cell_names oparg)
           else Inr PNone)
      | _ \<Rightarrow> Inl TypeError)"

section \<open>Jump target collector\<close>

text \<open>
  The loop of \<^verbatim>\<open>find_labels\<close> over the instructions the generator yields, with the
  list \<^verbatim>\<open>labels\<close> built so far. For an absolute jump the label is the operand as it
  is, \<^verbatim>\<open>None\<close> included; for a relative jump the sum raises on \<^verbatim>\<open>None\<close>.
\<close>

definition append_new :: "'a \<Rightarrow> 'a list \<Rightarrow> 'a list" where
  "append_new label labels = (if label \<in> set labels then labels else labels @ [label])"

fun labels_loop :: "pyenv \<Rightarrow> instr list \<Rightarrow> int option list \<Rightarrow> error + int option list" where
  "labels_loop e [] labels = Inr labels"
| "labels_loop e ((offset, opcode, oparg) # rest) labels =
     (if opcode \<in> set (hasjrel e) then
        (case oparg of
           None \<Rightarrow> Inl TypeError
         | Some a \<Rightarrow> labels_loop e rest (append_new (Some (offset + 2 + a)) labels))
      else if opcode \<in> set (hasjabs e) then
        labels_loop e rest (append_new oparg labels)
      else labels_loop e rest labels)"

text \<open>
  An exception of the generator reaches \<^verbatim>\<open>find_labels\<close> after the instructions
  yielded before it have been handled.
\<close>

definition find_labels :: "pyenv \<Rightarrow> code \<Rightarrow> error + int option list" where
  "find_labels e codeobj =
     (case unpack_op e (co_code codeobj) of
        (instrs, gen_err) \<Rightarrow>
          (case labels_loop e instrs [] of
             Inl err \<Rightarrow> Inl err
           | Inr labels \<Rightarrow>
               (case gen_err of Some err \<Rightarrow> Inl err | None \<Rightarrow> Inr labels)))"

text \<open>
  Modelled on the wording of C6, to be compared with \<^verbatim>\<open>find_labels\<close>: the destinations
  of the jump instructions of a listing, one per jump, in the order of the listing:
  \<open>offset + 2 + operand\<close> for a relative jump, the operand for an absolute jump.
\<close>

definition jump_destinations_spec :: "pyenv \<Rightarrow> instr list \<Rightarrow> int option list" where
  "jump_destinations_spec e instrs =
     concat (map (\<lambda>(offset, opcode, oparg).
                    if opcode \<in> set (hasjrel e) then
                      (case oparg of None \<Rightarrow> [] | Some a \<Rightarrow> [Some (offset + 2 + a)])
                    else if opcode \<in> set (hasjabs e) then [oparg]
                    else []) instrs)"

section \<open>Disassembly engine\<close>

text \<open>
  What \<^verbatim>\<open>disassemble\<close> prints, in order. A \<open>Row\<close> holds the six values handed to
  the format string of a listing line instead of the padded text: the line number
  (\<^verbatim>\<open>line_start or ''\<close>, blank for \<^verbatim>\<open>None\<close> and for 0), whether the offset is in
  \<^verbatim>\<open>labels\<close>, the offset, the mnemonic, the operand, and the resolved value unless it
  is \<^verbatim>\<open>None\<close>. \<open>Blank\<close> is the bare \<^verbatim>\<open>print()\<close>, \<open>Header\<close> the line that
  announces a nested code object.
\<close>

datatype event =
    Blank
  | Row "int option" bool int string "int option" "pyval option"
  | Header code

text \<open>
  The first loop of \<^verbatim>\<open>disassemble\<close>, over the instructions the generator yields, with
  the list \<^verbatim>\<open>code_objects\<close> collected so far. It returns what was printed, the final
  \<^verbatim>\<open>code_objects\<close>, and the exception of \<^verbatim>\<open>get_argvalue\<close> that stopped it, if any.
\<close>

fun disassemble_loop ::
  "pyenv \<Rightarrow> code \<Rightarrow> (int \<times> int) list \<Rightarrow> int option list \<Rightarrow> instr list \<Rightarrow> code list
     \<Rightarrow> event list \<times> code list \<times> error option" where
  "disassemble_loop e c linestarts labels [] code_objects = ([], code_objects, None)"
| "disassemble_loop e c linestarts labels ((offset, opcode, oparg) # rest) code_objects =
     (case get_argvalue e offset c opcode oparg of
        Inl err \<Rightarrow> ([], code_objects, Some err)
      | Inr argvalue \<Rightarrow>
          (let code_objects' =
                 (case argvalue of PCode oc \<Rightarrow> code_objects @ [oc] | _ \<Rightarrow> code_objects);
               line_start = map_of linestarts offset;
               shown = (case line_start of
                          None \<Rightarrow> None
                        | Some l \<Rightarrow> if l = 0 then None else Some l);
               dis_text = Row shown (Some offset \<in> set labels) offset (opname e opcode) oparg
                            (if argvalue = PNone then None else Some argvalue);
               printed = (if shown \<noteq> None \<and> offset \<noteq> 0 then [Blank, dis_text]
                          else [dis_text])
           in case disassemble_loop e c linestarts labels rest code_objects' of
                (out, cos, err) \<Rightarrow> (printed @ out, cos, err)))"

text \<open>
  The second loop, over \<^verbatim>\<open>code_objects\<close>: each nested code object is announced and
  disassembled in turn, and the first exception of a nested call ends the loop. Each
  element pairs a nested code object with the outcome of its own disassembly.
\<close>

fun disassemble_children ::
  "(code \<times> event list \<times> error option) list \<Rightarrow> event list \<times> error option" where
  "disassemble_children [] = ([], None)"
| "disassemble_children ((oc, out, err) # rest) =
     (case err of
        Some x \<Rightarrow> (Header oc # out, Some x)
      | None \<Rightarrow>
          (case disassemble_children rest of
             (out', err') \<Rightarrow> (Header oc # out @ out', err')))"

text \<open>
  \<^verbatim>\<open>hasattr(c, 'co_code')\<close> holds of code objects only. The passes run in the order of
  the source: line starts, labels (whose exception leaves before anything is printed), then
  the listing loop over a fresh run of the generator, then the nested code objects.
\<close>

lemma subscript_mem: "subscript xs i = Inr x \<Longrightarrow> x \<in> set xs"
  by (cases i) (auto split: if_splits)

lemma get_argvalue_PCode:
  "get_argvalue e offset c opcode oparg = Inr (PCode oc)
     \<Longrightarrow> \<exists>constants. co_consts c = Some constants \<and> PCode oc \<in> set constants"
  by (auto simp: get_argvalue_def Let_def map_sum_def
           simp del: subscript.simps
           split: option.splits if_splits sum.splits pyval.splits
           dest: subscript_mem)

lemma disassemble_loop_code_objects:
  "disassemble_loop e c linestarts labels instrs acc = (out, cos, err)
     \<Longrightarrow> oc \<in> set cos
     \<Longrightarrow> oc \<in> set acc \<or> (\<exists>constants. co_consts c = Some constants \<and> PCode oc \<in> set constants)"
proof (induction instrs arbitrary: acc out cos err)
  case Nil
  then show ?case by simp
next
  case (Cons ins instrs)
  obtain offset opcode oparg where ins: "ins = (offset, opcode, oparg)"
    by (cases ins) auto
  show ?case
  proof (cases "get_argvalue e offset c opcode oparg")
    case (Inl x)
    with Cons.prems ins show ?thesis by simp
  next
    case (Inr argvalue)
    let ?acc' = "case argvalue of PCode oc \<Rightarrow> acc @ [oc] | _ \<Rightarrow> acc"
    obtain out' cos' err' where
      rec: "disassemble_loop e c linestarts labels instrs ?acc' = (out', cos', err')"
      by (cases "disassemble_loop e c linestarts labels instrs ?acc'") auto
    from Cons.prems(1) ins Inr rec have "cos = cos'"
      by (simp add: Let_def)
    with Cons.prems(2) have "oc \<in> set cos'" by simp
    from Cons.IH [OF rec this]
    have "oc \<in> set ?acc' \<or> (\<exists>constants. co_consts c = Some constants \<and> PCode oc \<in> set constants)" .
    then show ?thesis
      using get_argvalue_PCode [of e offset c opcode oparg] Inr
      by (auto split: pyval.splits)
  qed
qed

lemma size_code_const:
  "co_consts c = Some constants \<Longrightarrow> PCode oc \<in> set constants \<Longrightarrow> size oc < size c"
proof -
  assume c: "co_consts c = Some constants" and m: "PCode oc \<in> set constants"
  from m have "size (PCode oc) \<le> size_list size constants"
    by (simp add: size_list_estimation')
  with c show ?thesis by (cases c) simp
qed

function disassemble :: "pyenv \<Rightarrow> pyval \<Rightarrow> event list \<times> error option" where
  "disassemble e (PCode c) =
     (let linestarts = find_linestarts c in
      case find_labels e c of
        Inl err \<Rightarrow> ([], Some err)
      | Inr labels \<Rightarrow>
          (case unpack_op e (co_code c) of
             (instrs, gen_err) \<Rightarrow>
               (case disassemble_loop e c linestarts labels instrs [] of
                  (out, code_objects, Some err) \<Rightarrow> (out, Some err)
                | (out, code_objects, None) \<Rightarrow>
                    (case gen_err of
                       Some err \<Rightarrow> (out, Some err)
                     | None \<Rightarrow>
                         (case disassemble_children
                                 (map (\<lambda>oc. (oc, disassemble e (PCode oc))) code_objects) of
                            (out', err') \<Rightarrow> (out @ out', err'))))))"
| "disassemble e PNone = ([], Some TypeError)"
| "disassemble e (PInt n) = ([], Some TypeError)"
| "disassemble e (PStr s) = ([], Some TypeError)"
  by pat_completeness auto
termination
proof (relation "measure (\<lambda>(e, v). size v)")
  show "wf (measure (\<lambda>(e, v). size v))" by simp
next
  fix e :: pyenv and c :: code and linestarts instrs out rest code_objects
    and err :: "error option" and oc :: code
  fix labels :: "int option list"
  assume "(out, rest) = disassemble_loop e c linestarts labels instrs []"
    and "(code_objects, err) = rest"
    and "oc \<in> set code_objects"
  then have "\<exists>constants. co_consts c = Some constants \<and> PCode oc \<in> set constants"
    using disassemble_loop_code_objects
            [of e c linestarts labels instrs "[]" out code_objects err oc]
    by auto
  then have "size oc < size c" by (auto dest: size_code_const)
  then show "((e, PCode oc), (e, PCode c)) \<in> measure (\<lambda>(e, v). size v)" by simp
qed

declare disassemble.simps(1) [simp del]





section \<open>Properties of the decoder\<close>

lemma range2_0: "range2 0 = []"
  by (simp add: range2_def)

lemma range2_1: "range2 (Suc 0) = [0]"
  by (simp add: range2_def)

lemma range2_Suc_Suc: "range2 (Suc (Suc n)) = range2 n @ [2 * ((n + 1) div 2)]"
  by (simp add: range2_def)

text \<open>
  C2. Two consecutive extended-argument instructions with operand bytes 0x01 and 0x02,
  followed by an instruction that takes an argument with operand byte 0x03: the operand
  yielded for the last instruction is 0x010203, the second extension having shifted the
  combined value 0x0102. The statement holds for every opcode table in which the
  extended-argument opcode \<open>x\<close> and the final opcode \<open>op\<close> are at or above the
  has-argument threshold.
\<close>

theorem unpack_op_extended_chain:
  assumes "uint x = EXTENDED_ARG e"
    and "HAVE_ARGUMENT e \<le> uint x"
    and "HAVE_ARGUMENT e \<le> uint op"
  shows "unpack_op e [x, 0x01, x, 0x02, op, 0x03] =
           ([(0, EXTENDED_ARG e, Some 0x01),
             (2, EXTENDED_ARG e, Some 0x0102),
             (4, uint op, Some 0x010203)], None)"
  using assms
  by (simp add: unpack_op_def range2_Suc_Suc range2_0 unpack_body_def Let_def)

theorem unpack_op_extended_chain_witness:
  "uint (144 :: byte) = EXTENDED_ARG cpython38
   \<and> HAVE_ARGUMENT cpython38 \<le> uint (144 :: byte)
   \<and> HAVE_ARGUMENT cpython38 \<le> uint (100 :: byte)
   \<and> unpack_op cpython38 [144, 0x01, 144, 0x02, 100, 0x03] =
         ([(0, 144, Some 0x01), (2, 144, Some 0x0102), (4, 100, Some 0x010203)], None)"
  using unpack_op_extended_chain [of 144 cpython38 100]
  by (simp add: cpython38_def)

text \<open>
  One step of the decoder: the accumulator is assigned only when the opcode is at or above
  the has-argument threshold.
\<close>

lemma unpack_body_accumulator:
  assumes "unpack_body e bytecode i extended_arg = Inr ((offset, opcode, oparg), extended_arg')"
  shows "opcode = uint (bytecode ! i)
         \<and> (opcode < HAVE_ARGUMENT e \<longrightarrow> oparg = None \<and> extended_arg' = extended_arg)
         \<and> (HAVE_ARGUMENT e \<le> opcode \<and> opcode \<noteq> EXTENDED_ARG e \<longrightarrow> extended_arg' = 0)
         \<and> (HAVE_ARGUMENT e \<le> opcode \<and> opcode = EXTENDED_ARG e \<longrightarrow>
               (\<exists>a. oparg = Some a \<and> extended_arg' = push_bit 8 a))"
  using assms by (auto simp: unpack_body_def Let_def split: if_splits)

text \<open>
  C3 as stated fails: in the stream EXTENDED_ARG 1, NOP, LOAD_CONST 3 the opcode NOP
  (9, below the threshold 90, not the extended-argument opcode) is decoded with the
  accumulator at 256 and leaves it at 256, so the operand of LOAD_CONST comes out as
  259 and not 3.
\<close>

theorem unpack_op_accumulator_counterexample:
  "uint (9 :: byte) \<noteq> EXTENDED_ARG cpython38
   \<and> unpack_body cpython38 [144, 1, 9, 0, 100, 3] 2 256 = Inr ((2, 9, None), 256)
   \<and> unpack_op cpython38 [144, 1, 9, 0, 100, 3] =
        ([(0, 144, Some 1), (2, 9, None), (4, 100, Some 259)], None)"
  by (simp add: unpack_op_def unpack_body_def cpython38_def range2_Suc_Suc range2_0)

lemma unpack_body_in_range:
  assumes "i + 1 < length bytecode"
  shows "\<exists>opcode oparg ext'. unpack_body e bytecode i ext = Inr ((int i, opcode, oparg), ext')"
  using assms by (simp add: unpack_body_def Let_def)

lemma unpack_loop_snoc:
  assumes "\<forall>j\<in>set is. j + 1 < length bytecode"
  shows "\<exists>instrs ext'. map fst instrs = map int is
           \<and> unpack_loop e bytecode is ext = (instrs, None)
           \<and> (\<forall>i. unpack_loop e bytecode (is @ [i]) ext =
                  (case unpack_body e bytecode i ext' of
                     Inl err \<Rightarrow> (instrs, Some err)
                   | Inr (ins, x) \<Rightarrow> (instrs @ [ins], None)))"
  using assms
proof (induction "is" arbitrary: ext)
  case Nil
  show ?case
    by (rule exI [of _ "[]"], rule exI [of _ ext]) (simp split: sum.splits prod.splits)
next
  case (Cons j js)
  from Cons.prems have "j + 1 < length bytecode" by simp
  then obtain opcode oparg ext1 where
    b: "unpack_body e bytecode j ext = Inr ((int j, opcode, oparg), ext1)"
    using unpack_body_in_range by blast
  from Cons.prems have "\<forall>j\<in>set js. j + 1 < length bytecode" by simp
  from Cons.IH [OF this, of ext1] obtain instrs ext' where
    ih: "map fst instrs = map int js"
        "unpack_loop e bytecode js ext1 = (instrs, None)"
        "\<forall>i. unpack_loop e bytecode (js @ [i]) ext1 =
                  (case unpack_body e bytecode i ext' of
                     Inl err \<Rightarrow> (instrs, Some err)
                   | Inr (ins, x) \<Rightarrow> (instrs @ [ins], None))"
    by blast
  show ?case
    by (rule exI [of _ "(int j, opcode, oparg) # instrs"], rule exI [of _ ext'])
       (simp add: b ih split: sum.splits prod.splits)
qed

lemma range2_odd: "odd n \<Longrightarrow> range2 n = range2 (n - 1) @ [n - 1]"
  by (cases n) (auto simp: range2_def elim!: evenE)

lemma range2_bound: "j \<in> set (range2 n) \<Longrightarrow> j < n \<and> even j"
  by (auto simp: range2_def)

lemma range2_even_bound: "even n \<Longrightarrow> j \<in> set (range2 n) \<Longrightarrow> j + 1 < n"
  by (auto simp: range2_def elim!: evenE)

text \<open>
  C7 (as amended). For a byte sequence of odd length the loop reaches the trailing byte
  as an opcode of its own. When that opcode is at or above the has-argument threshold,
  reading its operand raises \<^verbatim>\<open>IndexError\<close>, after one instruction has been yielded
  for every complete pair before it. When it is below the threshold no exception is
  raised: the trailing byte is yielded as a last instruction without operand.
\<close>

theorem unpack_op_odd_length:
  assumes "odd (length bytecode)"
  shows "(HAVE_ARGUMENT e \<le> uint (last bytecode) \<longrightarrow>
            snd (unpack_op e bytecode) = Some IndexError
            \<and> map fst (fst (unpack_op e bytecode)) = map int (range2 (length bytecode - 1)))
       \<and> (uint (last bytecode) < HAVE_ARGUMENT e \<longrightarrow>
            snd (unpack_op e bytecode) = None
            \<and> map fst (fst (unpack_op e bytecode)) = map int (range2 (length bytecode))
            \<and> last (fst (unpack_op e bytecode)) =
                 (int (length bytecode) - 1, uint (last bytecode), None))"
proof -
  define m where "m = length bytecode - 1"
  from assms have n: "length bytecode = Suc m"
    by (auto simp: m_def elim: oddE)
  then have ne: "bytecode \<noteq> []" by auto
  have r: "range2 (length bytecode) = range2 m @ [m]"
    using range2_odd [OF assms] by (simp add: m_def)
  have "\<forall>j\<in>set (range2 m). j + 1 < length bytecode"
    using range2_bound [of _ m] n by fastforce
  from unpack_loop_snoc [OF this, of e 0] obtain instrs ext' where
    i: "map fst instrs = map int (range2 m)"
       "\<forall>i. unpack_loop e bytecode (range2 m @ [i]) 0 =
                  (case unpack_body e bytecode i ext' of
                     Inl err \<Rightarrow> (instrs, Some err)
                   | Inr (ins, x) \<Rightarrow> (instrs @ [ins], None))"
    by blast
  have l: "bytecode ! m = last bytecode"
    using ne by (simp add: last_conv_nth m_def)
  have u: "unpack_op e bytecode =
             (case unpack_body e bytecode m ext' of
                Inl err \<Rightarrow> (instrs, Some err)
              | Inr (ins, x) \<Rightarrow> (instrs @ [ins], None))"
    using i(2) by (simp only: unpack_op_def r)
  have b1: "unpack_body e bytecode m ext' = Inl IndexError"
    if "HAVE_ARGUMENT e \<le> uint (last bytecode)"
    using that n by (simp add: unpack_body_def l Let_def)
  have b2: "unpack_body e bytecode m ext' = Inr ((int m, uint (last bytecode), None), ext')"
    if "uint (last bytecode) < HAVE_ARGUMENT e"
    using that by (simp add: unpack_body_def l Let_def)
  have c1: "snd (unpack_op e bytecode) = Some IndexError
            \<and> map fst (fst (unpack_op e bytecode)) = map int (range2 (length bytecode - 1))"
    if "HAVE_ARGUMENT e \<le> uint (last bytecode)"
    using b1 [OF that] i(1) by (simp add: u m_def)
  have c2: "snd (unpack_op e bytecode) = None
            \<and> map fst (fst (unpack_op e bytecode)) = map int (range2 (length bytecode))
            \<and> last (fst (unpack_op e bytecode)) =
                 (int (length bytecode) - 1, uint (last bytecode), None)"
    if "uint (last bytecode) < HAVE_ARGUMENT e"
    using b2 [OF that] i(1) n r by (simp add: u)
  from c1 c2 show ?thesis by blast
qed

theorem unpack_op_odd_length_witness:
  "odd (length [100, 0, 100 :: byte]) \<and> HAVE_ARGUMENT cpython38 \<le> uint (last [100, 0, 100 :: byte])
   \<and> unpack_op cpython38 [100, 0, 100] = ([(0, 100, Some 0)], Some IndexError)
   \<and> odd (length [100, 0, 1 :: byte]) \<and> uint (last [100, 0, 1 :: byte]) < HAVE_ARGUMENT cpython38
   \<and> unpack_op cpython38 [100, 0, 1] = ([(0, 100, Some 0), (2, 1, None)], None)"
  using unpack_op_odd_length [of "[100, 0, 100]" cpython38]
    unpack_op_odd_length [of "[100, 0, 1]" cpython38]
  by (simp add: unpack_op_def unpack_body_def cpython38_def range2_Suc_Suc range2_1)

text \<open>
  C7 as stated fails: the one-byte sequence POP_TOP (opcode 1) has odd length and is
  decoded without any error, the lone byte being yielded as a complete instruction.
\<close>

theorem unpack_op_odd_length_counterexample:
  "odd (length [1 :: byte]) \<and> unpack_op cpython38 [1] = ([(0, 1, None)], None)"
  by (simp add: unpack_op_def unpack_body_def cpython38_def range2_1)

lemma unpack_body_spec:
  assumes "unpack_body e bytecode (2 * k) (accumulator_spec e bytecode k) = Inr (ins, ext')"
  shows "ins = decoded_spec e bytecode k \<and> ext' = accumulator_spec e bytecode (Suc k)"
  using assms
  by (auto simp: unpack_body_def decoded_spec_def Let_def split: if_splits)

lemma unpack_loop_spec:
  assumes "unpack_loop e bytecode (map (\<lambda>k. 2 * k) [a..<b]) (accumulator_spec e bytecode a)
             = (instrs, err)"
    and "j < length instrs"
  shows "instrs ! j = decoded_spec e bytecode (a + j)"
  using assms
proof (induction "b - a" arbitrary: a instrs j err)
  case 0
  then show ?case by simp
next
  case (Suc n)
  then have ab: "a < b" and n: "n = b - Suc a" by simp_all
  then have upt: "[a..<b] = a # [Suc a..<b]" by (simp add: upt_rec)
  show ?case
  proof (cases "unpack_body e bytecode (2 * a) (accumulator_spec e bytecode a)")
    case (Inl x)
    with Suc.prems upt show ?thesis by simp
  next
    case (Inr p)
    obtain ins ext' where p: "p = (ins, ext')" by (cases p)
    from unpack_body_spec [of e bytecode a ins ext'] Inr p
    have s: "ins = decoded_spec e bytecode a" "ext' = accumulator_spec e bytecode (Suc a)"
      by simp_all
    obtain rest err' where
      r: "unpack_loop e bytecode (map (\<lambda>k. 2 * k) [Suc a..<b])
            (accumulator_spec e bytecode (Suc a)) = (rest, err')"
      by (cases "unpack_loop e bytecode (map (\<lambda>k. 2 * k) [Suc a..<b])
            (accumulator_spec e bytecode (Suc a))")
    from Suc.prems(1) upt Inr p s r have i: "instrs = ins # rest" by simp
    show ?thesis
    proof (cases j)
      case 0
      with i s show ?thesis by simp
    next
      case (Suc j')
      with Suc.prems(2) i have "j' < length rest" by simp
      from Suc.hyps(1) [OF n r this] i Suc show ?thesis by simp
    qed
  qed
qed

text \<open>
  C3 (as amended). During decoding by \<^verbatim>\<open>unpack_op\<close>, every instruction yielded is
  the opcode at its offset together with, for an opcode at or above the has-argument
  threshold, its operand byte merged (bitwise or) with the accumulator; an opcode below the
  threshold has no operand. The accumulator starts at zero and is assigned only by opcodes
  at or above the threshold: the extended-argument opcode sets it to its operand shifted
  left by 8, any other such opcode resets it to zero. An opcode below the threshold leaves
  it unchanged, so an extension pending before it is merged into the operand of the next
  instruction that takes one. A byte sequence of even length is decoded to the end without
  an exception.
\<close>

theorem unpack_op_accumulator:
  "(k < length (fst (unpack_op e bytecode)) \<longrightarrow>
      fst (unpack_op e bytecode) ! k =
        (int (2 * k), uint (bytecode ! (2 * k)),
         if uint (bytecode ! (2 * k)) < HAVE_ARGUMENT e then None
         else Some (uint (bytecode ! (2 * k + 1)) OR accumulator_spec e bytecode k)))
   \<and> accumulator_spec e bytecode 0 = 0
   \<and> (uint (bytecode ! (2 * k)) < HAVE_ARGUMENT e \<longrightarrow>
        accumulator_spec e bytecode (Suc k) = accumulator_spec e bytecode k)
   \<and> (HAVE_ARGUMENT e \<le> uint (bytecode ! (2 * k))
        \<and> uint (bytecode ! (2 * k)) \<noteq> EXTENDED_ARG e \<longrightarrow>
        accumulator_spec e bytecode (Suc k) = 0)
   \<and> (HAVE_ARGUMENT e \<le> uint (bytecode ! (2 * k))
        \<and> uint (bytecode ! (2 * k)) = EXTENDED_ARG e \<longrightarrow>
        accumulator_spec e bytecode (Suc k) =
          push_bit 8 (uint (bytecode ! (2 * k + 1)) OR accumulator_spec e bytecode k))
   \<and> (even (length bytecode) \<longrightarrow>
        snd (unpack_op e bytecode) = None
        \<and> length (fst (unpack_op e bytecode)) = length bytecode div 2)"
proof -
  have 1: "fst (unpack_op e bytecode) ! k = decoded_spec e bytecode k"
    if "k < length (fst (unpack_op e bytecode))"
    using unpack_loop_spec [of e bytecode 0 "(length bytecode + 1) div 2"
            "fst (unpack_op e bytecode)" "snd (unpack_op e bytecode)" k] that
    by (simp add: unpack_op_def range2_def)
  have 2: "snd (unpack_op e bytecode) = None
           \<and> length (fst (unpack_op e bytecode)) = length bytecode div 2"
    if ev: "even (length bytecode)"
  proof -
    have "\<forall>j\<in>set (range2 (length bytecode)). j + 1 < length bytecode"
      using range2_even_bound [OF ev] by blast
    from unpack_loop_snoc [OF this, of e 0] obtain instrs where
      "map fst instrs = map int (range2 (length bytecode))"
      "unpack_op e bytecode = (instrs, None)"
      unfolding unpack_op_def by blast
    moreover from this(1) have "length instrs = length (range2 (length bytecode))"
      using length_map by metis
    ultimately show ?thesis using ev by (simp add: range2_def)
  qed
  from 1 2 show ?thesis by (simp add: decoded_spec_def)
qed

theorem unpack_op_accumulator_witness:
  "Suc (Suc 0) < length (fst (unpack_op cpython38 [144, 1, 9, 0, 100, 3]))
   \<and> fst (unpack_op cpython38 [144, 1, 9, 0, 100, 3]) ! Suc (Suc 0) = (4, 100, Some 259)
   \<and> accumulator_spec cpython38 [144, 1, 9, 0, 100, 3] (Suc 0) = 256
   \<and> accumulator_spec cpython38 [144, 1, 9, 0, 100, 3] (Suc (Suc 0)) = 256
   \<and> accumulator_spec cpython38 [144, 1, 9, 0, 100, 3] (Suc (Suc (Suc 0))) = 0
   \<and> even (length [144, 1, 9, 0, 100, 3 :: byte])
   \<and> snd (unpack_op cpython38 [144, 1, 9, 0, 100, 3]) = None"
  using unpack_op_accumulator [of "Suc (Suc 0)" cpython38 "[144, 1, 9, 0, 100, 3]"]
  by (simp add: unpack_op_def unpack_body_def cpython38_def range2_Suc_Suc range2_0)

section \<open>Properties of the line table decoder\<close>

lemma slice_step2_Cons: "slice_step2 (y # xs) = y # slice_step2 (drop 1 xs)"
  by (cases xs) simp_all

lemma lnotab_pairs:
  "zip (slice_step2 xs) (slice_step2 (drop 1 xs)) =
     map (\<lambda>k. (xs ! (2 * k), xs ! (2 * k + 1))) [0..<length xs div 2]"
proof (induction xs rule: slice_step2.induct)
  case 1
  show ?case by simp
next
  case (2 x)
  show ?case by simp
next
  case (3 x y xs)
  have "zip (slice_step2 (x # y # xs)) (slice_step2 (drop 1 (x # y # xs))) =
          (x, y) # zip (slice_step2 xs) (slice_step2 (drop 1 xs))"
    by (simp add: slice_step2_Cons)
  also have "\<dots> = (x, y) # map (\<lambda>k. (xs ! (2 * k), xs ! (2 * k + 1))) [0..<length xs div 2]"
    by (simp only: 3)
  also have "\<dots> = map (\<lambda>k. ((x # y # xs) ! (2 * k), (x # y # xs) ! (2 * k + 1)))
                      [0..<length (x # y # xs) div 2]"
    by (simp add: upt_conv_Cons map_Suc_upt [symmetric] del: upt_Suc)
  finally show ?case .
qed

lemma linestarts_loop_fold:
  "linestarts_loop ps byte line d =
     fold (\<lambda>k. AList.update (byte + (\<Sum>j<k. uint (fst (ps ! j))))
                 (line + (\<Sum>j<k. if 128 \<le> uint (snd (ps ! j)) then uint (snd (ps ! j)) - 256
                                   else uint (snd (ps ! j)))))
          [1..<Suc (length ps)] d"
proof (induction ps arbitrary: byte line d)
  case Nil
  show ?case by simp
next
  case (Cons p ps)
  obtain b l where p: "p = (b, l)" by (cases p)
  have u: "[1..<Suc (length (p # ps))] = 1 # map Suc [1..<Suc (length ps)]"
    by (simp add: upt_conv_Cons map_Suc_upt del: upt_Suc)
  show ?case
    unfolding u
    by (simp add: p Cons.IH Let_def fold_map comp_def sum.lessThan_Suc_shift add.assoc
             del: upt_Suc sum.lessThan_Suc cong: if_cong)
qed

text \<open>
  C4. For every line table and first line, \<^verbatim>\<open>find_linestarts\<close> starts from
  \<open>{0: first line}\<close> and stores, for the \<open>k\<close>-th pair of the table in turn, the sum of
  the first \<open>k\<close> byte increments against the first line plus the sum of the first \<open>k\<close>
  line increments, where a line-increment byte at or above 128 counts as the byte minus
  256. For first line 10 and the table bytes 0 0, 4 1, 6 255 the result is
  \<open>{0: 10, 4: 11, 10: 10}\<close>.
\<close>

theorem find_linestarts_table:
  "find_linestarts c =
     fold (\<lambda>k. AList.update (\<Sum>j<k. uint (co_lnotab c ! (2 * j)))
                 (co_firstlineno c +
                  (\<Sum>j<k. if 128 \<le> uint (co_lnotab c ! (2 * j + 1))
                           then uint (co_lnotab c ! (2 * j + 1)) - 256
                           else uint (co_lnotab c ! (2 * j + 1)))))
          [1..<Suc (length (co_lnotab c) div 2)] [(0, co_firstlineno c)]
   \<and> find_linestarts (Code bc cs vn ns cv fv [0, 0, 4, 1, 6, 255] 10) =
        [(0, 10), (4, 11), (10, 10)]"
proof -
  let ?ln = "co_lnotab c"
  define ps where "ps = zip (slice_step2 ?ln) (slice_step2 (drop 1 ?ln))"
  have ps: "ps = map (\<lambda>k. (?ln ! (2 * k), ?ln ! (2 * k + 1))) [0..<length ?ln div 2]"
    unfolding ps_def by (rule lnotab_pairs)
  have len: "length ps = length ?ln div 2"
    by (simp add: ps)
  have nth: "ps ! j = (?ln ! (2 * j), ?ln ! (2 * j + 1))" if "j < length ?ln div 2" for j
    using that by (simp add: ps)
  have "find_linestarts c =
          fold (\<lambda>k. AList.update (0 + (\<Sum>j<k. uint (fst (ps ! j))))
                 (co_firstlineno c +
                  (\<Sum>j<k. if 128 \<le> uint (snd (ps ! j)) then uint (snd (ps ! j)) - 256
                           else uint (snd (ps ! j)))))
            [1..<Suc (length ps)] [(0, co_firstlineno c)]"
    unfolding find_linestarts_def Let_def ps_def by (rule linestarts_loop_fold)
  also have "\<dots> =
          fold (\<lambda>k. AList.update (\<Sum>j<k. uint (?ln ! (2 * j)))
                 (co_firstlineno c +
                  (\<Sum>j<k. if 128 \<le> uint (?ln ! (2 * j + 1))
                           then uint (?ln ! (2 * j + 1)) - 256
                           else uint (?ln ! (2 * j + 1)))))
            [1..<Suc (length ?ln div 2)] [(0, co_firstlineno c)]"
  proof (rule fold_cong)
    show "[(0, co_firstlineno c)] = [(0, co_firstlineno c)]" ..
    show "[1..<Suc (length ps)] = [1..<Suc (length ?ln div 2)]" by (simp only: len)
  next
    fix k assume "k \<in> set [1..<Suc (length ps)]"
    then have k: "k \<le> length ?ln div 2" by (simp add: len del: upt_Suc)
    have "(\<Sum>j<k. uint (fst (ps ! j))) = (\<Sum>j<k. uint (?ln ! (2 * j)))"
      using k by (intro sum.cong) (simp_all add: nth)
    moreover have "(\<Sum>j<k. if 128 \<le> uint (snd (ps ! j)) then uint (snd (ps ! j)) - 256
                           else uint (snd (ps ! j))) =
                   (\<Sum>j<k. if 128 \<le> uint (?ln ! (2 * j + 1))
                           then uint (?ln ! (2 * j + 1)) - 256
                           else uint (?ln ! (2 * j + 1)))"
      using k by (intro sum.cong) (simp_all add: nth)
    ultimately show "AList.update (0 + (\<Sum>j<k. uint (fst (ps ! j))))
                 (co_firstlineno c +
                  (\<Sum>j<k. if 128 \<le> uint (snd (ps ! j)) then uint (snd (ps ! j)) - 256
                           else uint (snd (ps ! j)))) =
            AList.update (\<Sum>j<k. uint (?ln ! (2 * j)))
                 (co_firstlineno c +
                  (\<Sum>j<k. if 128 \<le> uint (?ln ! (2 * j + 1))
                           then uint (?ln ! (2 * j + 1)) - 256
                           else uint (?ln ! (2 * j + 1))))"
      by simp
  qed
  finally have g: "find_linestarts c =
          fold (\<lambda>k. AList.update (\<Sum>j<k. uint (?ln ! (2 * j)))
                 (co_firstlineno c +
                  (\<Sum>j<k. if 128 \<le> uint (?ln ! (2 * j + 1))
                           then uint (?ln ! (2 * j + 1)) - 256
                           else uint (?ln ! (2 * j + 1)))))
            [1..<Suc (length ?ln div 2)] [(0, co_firstlineno c)]" .
  have x: "find_linestarts (Code bc cs vn ns cv fv [0, 0, 4, 1, 6, 255] 10) =
        [(0, 10), (4, 11), (10, 10)]"
    by (simp add: find_linestarts_def Let_def)
  from g x show ?thesis by (rule conjI)
qed

theorem find_linestarts_table_witness:
  "find_linestarts (Code [] None None None None None [2, 127, 2, 128] 0) =
     [(0, 0), (2, 127), (4, - 1)]
   \<and> find_linestarts (Code [] None None None None None [0, 0, 4, 1, 6, 255] 10) =
        [(0, 10), (4, 11), (10, 10)]"
  using find_linestarts_table [of "Code [] None None None None None [2, 127, 2, 128] 0"
          "[]" None None None None None]
  by (simp add: find_linestarts_def Let_def)

lemma length_update_keys:
  "length (AList.update k v al) = (if k \<in> fst ` set al then length al else Suc (length al))"
  using arg_cong [OF AList.update_keys [of k v al], of length] by (simp split: if_splits)

lemma linestarts_loop_length:
  assumes "byte \<in> fst ` set d" and "\<forall>k\<in>fst ` set d. k \<le> byte" and "distinct (map fst d)"
  shows "length (linestarts_loop ps byte line d) = length d + length (filter (\<lambda>p. fst p \<noteq> 0) ps)
         \<and> distinct (map fst (linestarts_loop ps byte line d))"
  using assms
proof (induction ps arbitrary: byte line d)
  case Nil
  then show ?case by simp
next
  case (Cons p ps)
  obtain b l where p: "p = (b, l)" by (cases p)
  define byte' where "byte' = byte + uint b"
  define line' where "line' = line + (if 128 \<le> uint l then uint l - 256 else uint l)"
  define d' where "d' = AList.update byte' line' d"
  have step: "linestarts_loop (p # ps) byte line d = linestarts_loop ps byte' line' d'"
    by (simp add: p byte'_def line'_def d'_def Let_def)
  have ge: "byte \<le> byte'" by (simp add: byte'_def)
  have keys: "fst ` set d' = {byte'} \<union> fst ` set d"
    by (simp add: d'_def AList.dom_update)
  have i1: "byte' \<in> fst ` set d'" using keys by simp
  have i2: "\<forall>k\<in>fst ` set d'. k \<le> byte'" using keys Cons.prems(2) ge by fastforce
  have i3: "distinct (map fst d')" using Cons.prems(3) by (simp add: d'_def AList.distinct_update)
  have len: "length d' = length d + (if b \<noteq> 0 then 1 else 0)"
  proof (cases "b = 0")
    case True
    then have "byte' = byte" by (simp add: byte'_def)
    with Cons.prems(1) True show ?thesis by (simp add: d'_def length_update_keys)
  next
    case False
    then have "uint b \<noteq> 0" by (simp add: uint_0_iff)
    then have "0 < uint b" using uint_ge_0 [of b] by linarith
    then have "byte < byte'" by (simp add: byte'_def)
    with Cons.prems(2) have "byte' \<notin> fst ` set d" by fastforce
    with False show ?thesis by (simp add: d'_def length_update_keys)
  qed
  from Cons.IH [OF i1 i2 i3, of line'] len show ?case
    unfolding step by (simp add: p)
qed

text \<open>
  C5 (as amended). The mapping returned by \<^verbatim>\<open>find_linestarts\<close> has distinct keys
  and holds one entry for offset 0 plus one entry for every encoded pair whose byte
  increment is not zero; a pair with byte increment zero overwrites the entry of the
  current offset. With \<open>n\<close> encoded pairs it therefore has at most \<open>n + 1\<close> entries, and
  exactly \<open>n + 1\<close> if and only if no byte increment is zero.
\<close>

theorem find_linestarts_entries:
  "length (find_linestarts c) =
     1 + length (filter (\<lambda>k. co_lnotab c ! (2 * k) \<noteq> 0) [0..<length (co_lnotab c) div 2])
   \<and> length (find_linestarts c) \<le> length (co_lnotab c) div 2 + 1
   \<and> (length (find_linestarts c) = length (co_lnotab c) div 2 + 1 \<longleftrightarrow>
        (\<forall>k<length (co_lnotab c) div 2. co_lnotab c ! (2 * k) \<noteq> 0))
   \<and> distinct (map fst (find_linestarts c))"
proof -
  let ?ln = "co_lnotab c"
  let ?n = "length ?ln div 2"
  define ps where "ps = zip (slice_step2 ?ln) (slice_step2 (drop 1 ?ln))"
  have ps: "ps = map (\<lambda>k. (?ln ! (2 * k), ?ln ! (2 * k + 1))) [0..<?n]"
    unfolding ps_def by (rule lnotab_pairs)
  have f: "find_linestarts c = linestarts_loop ps 0 (co_firstlineno c) [(0, co_firstlineno c)]"
    by (simp add: find_linestarts_def ps_def Let_def)
  have "length (filter (\<lambda>p. fst p \<noteq> 0) ps) = length (filter (\<lambda>k. ?ln ! (2 * k) \<noteq> 0) [0..<?n])"
    by (simp add: ps filter_map comp_def)
  with linestarts_loop_length [of 0 "[(0, co_firstlineno c)]" ps "co_firstlineno c"]
  have 1: "length (find_linestarts c) = 1 + length (filter (\<lambda>k. ?ln ! (2 * k) \<noteq> 0) [0..<?n])"
    and 4: "distinct (map fst (find_linestarts c))"
    by (simp_all add: f)
  have le: "length (filter (\<lambda>k. ?ln ! (2 * k) \<noteq> 0) [0..<?n]) \<le> ?n"
    using length_filter_le [of _ "[0..<?n]"] by simp
  have eq: "length (filter (\<lambda>k. ?ln ! (2 * k) \<noteq> 0) [0..<?n]) = ?n \<longleftrightarrow>
              (\<forall>k<?n. ?ln ! (2 * k) \<noteq> 0)"
    using filter_id_conv [of "\<lambda>k. ?ln ! (2 * k) \<noteq> 0" "[0..<?n]"]
          length_filter_less [of _ "[0..<?n]" "\<lambda>k. ?ln ! (2 * k) \<noteq> 0"]
    by (metis (no_types, lifting) atLeastLessThan_iff length_upt diff_zero less_irrefl
          set_upt zero_le)
  from 1 4 le eq show ?thesis by auto
qed

theorem find_linestarts_entries_witness:
  "length (find_linestarts (Code [] None None None None None [2, 127, 2, 128] 0)) = 3
   \<and> length [2, 127, 2, 128 :: byte] div 2 = 2
   \<and> [2, 127, 2, 128 :: byte] ! (2 * 0) \<noteq> 0 \<and> [2, 127, 2, 128 :: byte] ! (2 * 1) \<noteq> 0
   \<and> length (find_linestarts (Code [] None None None None None [0, 0, 4, 1, 6, 255] 10)) = 3"
  using find_linestarts_entries [of "Code [] None None None None None [2, 127, 2, 128] 0"]
    find_linestarts_entries [of "Code [] None None None None None [0, 0, 4, 1, 6, 255] 10"]
  by (simp add: find_linestarts_def Let_def less_Suc_eq nth_Cons')

text \<open>
  C5 as stated fails: the table 0 0, 4 1, 6 255 has three pairs and the mapping has three
  entries, not four, because the first pair overwrites the entry at offset 0.
\<close>

theorem find_linestarts_entries_counterexample:
  "length (find_linestarts (Code [] None None None None None [0, 0, 4, 1, 6, 255] 10))
     \<noteq> length [0, 0, 4, 1, 6, 255 :: byte] div 2 + 1"
  by (simp add: find_linestarts_def Let_def)

section \<open>Properties of the jump target collector\<close>

lemma jump_destinations_spec_Nil: "jump_destinations_spec e [] = []"
  by (simp add: jump_destinations_spec_def)

lemma jump_destinations_spec_Cons:
  "jump_destinations_spec e ((offset, opcode, oparg) # instrs) =
     (if opcode \<in> set (hasjrel e) then
        (case oparg of None \<Rightarrow> [] | Some a \<Rightarrow> [Some (offset + 2 + a)])
      else if opcode \<in> set (hasjabs e) then [oparg]
      else []) @ jump_destinations_spec e instrs"
  by (simp add: jump_destinations_spec_def)

lemma jump_destinations_spec_mem:
  assumes "x \<in> set (jump_destinations_spec e instrs)"
  shows "\<exists>offset opcode oparg.
           (offset, opcode, oparg) \<in> set instrs
           \<and> (opcode \<in> set (hasjrel e) \<and> (\<exists>a. oparg = Some a \<and> x = Some (offset + 2 + a))
              \<or> opcode \<notin> set (hasjrel e) \<and> opcode \<in> set (hasjabs e) \<and> x = oparg)"
  using assms
proof (induction instrs)
  case Nil
  then show ?case by (simp add: jump_destinations_spec_Nil)
next
  case (Cons ins instrs)
  obtain offset opcode oparg where ins: "ins = (offset, opcode, oparg)" by (cases ins)
  from Cons.prems have "x \<in> set (jump_destinations_spec e instrs)
      \<or> (opcode \<in> set (hasjrel e) \<and> (\<exists>a. oparg = Some a \<and> x = Some (offset + 2 + a))
              \<or> opcode \<notin> set (hasjrel e) \<and> opcode \<in> set (hasjabs e) \<and> x = oparg)"
    by (cases "opcode \<in> set (hasjrel e)"; cases oparg; cases "opcode \<in> set (hasjabs e)")
       (auto simp: ins jump_destinations_spec_Cons)
  then show ?case
  proof
    assume "x \<in> set (jump_destinations_spec e instrs)"
    from Cons.IH [OF this] show ?thesis by auto
  next
    assume "opcode \<in> set (hasjrel e) \<and> (\<exists>a. oparg = Some a \<and> x = Some (offset + 2 + a))
              \<or> opcode \<notin> set (hasjrel e) \<and> opcode \<in> set (hasjabs e) \<and> x = oparg"
    then show ?thesis unfolding ins by (intro exI [of _ offset] exI [of _ opcode] exI [of _ oparg]) simp
  qed
qed

lemma labels_loop_fold:
  assumes "labels_loop e instrs acc = Inr labels"
  shows "labels = fold append_new (jump_destinations_spec e instrs) acc"
  using assms
proof (induction instrs arbitrary: acc)
  case Nil
  then show ?case by (simp add: jump_destinations_spec_Nil)
next
  case (Cons ins instrs)
  obtain offset opcode oparg where ins: "ins = (offset, opcode, oparg)" by (cases ins)
  from Cons.prems Cons.IH show ?case
    by (cases "opcode \<in> set (hasjrel e)"; cases oparg; cases "opcode \<in> set (hasjabs e)")
       (simp_all add: ins jump_destinations_spec_Cons)
qed

lemma fold_append_new: "fold append_new ds [] = rev (remdups (rev ds))"
proof (induction ds rule: rev_induct)
  case Nil
  show ?case by simp
next
  case (snoc x ds)
  then show ?case by (simp add: append_new_def)
qed

lemma labels_loop_returns:
  assumes "\<forall>(offset, opcode, oparg)\<in>set instrs. opcode \<in> set (hasjrel e) \<longrightarrow> oparg \<noteq> None"
  shows "\<exists>labels. labels_loop e instrs acc = Inr labels"
  using assms
proof (induction instrs arbitrary: acc)
  case Nil
  show ?case by simp
next
  case (Cons ins instrs)
  obtain offset opcode oparg where ins: "ins = (offset, opcode, oparg)" by (cases ins)
  from Cons.prems have "\<forall>(offset, opcode, oparg)\<in>set instrs.
      opcode \<in> set (hasjrel e) \<longrightarrow> oparg \<noteq> None" by simp
  note ih = Cons.IH [OF this]
  from Cons.prems ins have "opcode \<in> set (hasjrel e) \<longrightarrow> oparg \<noteq> None" by simp
  with ih show ?case by (auto simp: ins)
qed

lemma unpack_op_nth:
  assumes "k < length (fst (unpack_op e bytecode))"
  shows "fst (unpack_op e bytecode) ! k = decoded_spec e bytecode k"
  using unpack_loop_spec [of e bytecode 0 "(length bytecode + 1) div 2"
          "fst (unpack_op e bytecode)" "snd (unpack_op e bytecode)" k] assms
  by (simp add: unpack_op_def range2_def)

lemma unpack_op_even:
  assumes "even (length bytecode)"
  shows "snd (unpack_op e bytecode) = None"
    and "map fst (fst (unpack_op e bytecode)) = map int (range2 (length bytecode))"
proof -
  have "\<forall>j\<in>set (range2 (length bytecode)). j + 1 < length bytecode"
    using range2_even_bound [OF assms] by blast
  from unpack_loop_snoc [OF this, of e 0] obtain instrs where
    "map fst instrs = map int (range2 (length bytecode))"
    "unpack_op e bytecode = (instrs, None)"
    unfolding unpack_op_def by blast
  then show "snd (unpack_op e bytecode) = None"
    and "map fst (fst (unpack_op e bytecode)) = map int (range2 (length bytecode))"
    by simp_all
qed

text \<open>
  C6. Whenever \<^verbatim>\<open>find_labels\<close> returns, the list it returns has no duplicates, is
  the list of jump destinations of the unit's instructions with only the first occurrence
  of each kept (the order of first discovery), and each of its members is
  \<open>offset + 2 + operand\<close> of a relative jump or the operand of an absolute jump among the
  instructions of the unit. The scan is a single pass in ascending offset: the \<open>k\<close>-th
  instruction scanned is the one at offset \<open>2 * k\<close>. It does return for every byte
  sequence of even length when, as in the tables of \<^verbatim>\<open>dis\<close>, every relative-jump
  opcode takes an argument.
\<close>

theorem find_labels_collects:
  "(\<forall>labels. find_labels e c = Inr labels \<longrightarrow>
      distinct labels
      \<and> labels = rev (remdups (rev (jump_destinations_spec e (fst (unpack_op e (co_code c))))))
      \<and> (\<forall>l\<in>set labels. \<exists>offset opcode oparg.
            (offset, opcode, oparg) \<in> set (fst (unpack_op e (co_code c)))
            \<and> (opcode \<in> set (hasjrel e) \<and> (\<exists>a. oparg = Some a \<and> l = Some (offset + 2 + a))
               \<or> opcode \<notin> set (hasjrel e) \<and> opcode \<in> set (hasjabs e) \<and> l = oparg)))
   \<and> (\<forall>k<length (fst (unpack_op e (co_code c))).
        fst (fst (unpack_op e (co_code c)) ! k) = 2 * int k)
   \<and> (even (length (co_code c)) \<and> (\<forall>op\<in>set (hasjrel e). HAVE_ARGUMENT e \<le> op) \<longrightarrow>
        (\<exists>labels. find_labels e c = Inr labels))"
proof -
  let ?instrs = "fst (unpack_op e (co_code c))"
  let ?ds = "jump_destinations_spec e ?instrs"
  have 1: "distinct labels \<and> labels = rev (remdups (rev ?ds))
      \<and> (\<forall>l\<in>set labels. \<exists>offset opcode oparg.
            (offset, opcode, oparg) \<in> set ?instrs
            \<and> (opcode \<in> set (hasjrel e) \<and> (\<exists>a. oparg = Some a \<and> l = Some (offset + 2 + a))
               \<or> opcode \<notin> set (hasjrel e) \<and> opcode \<in> set (hasjabs e) \<and> l = oparg))"
    if "find_labels e c = Inr labels" for labels
  proof -
    from that have "labels_loop e ?instrs [] = Inr labels"
      by (auto simp: find_labels_def split: prod.splits sum.splits option.splits)
    then have "labels = fold append_new ?ds []"
      by (rule labels_loop_fold)
    then have l: "labels = rev (remdups (rev ?ds))"
      by (simp only: fold_append_new)
    then have s: "set labels = set ?ds" by simp
    have "\<exists>offset opcode oparg.
            (offset, opcode, oparg) \<in> set ?instrs
            \<and> (opcode \<in> set (hasjrel e) \<and> (\<exists>a. oparg = Some a \<and> x = Some (offset + 2 + a))
               \<or> opcode \<notin> set (hasjrel e) \<and> opcode \<in> set (hasjabs e) \<and> x = oparg)"
      if "x \<in> set ?ds" for x
      using that by (rule jump_destinations_spec_mem)
    with l s show ?thesis by simp
  qed
  have 2: "fst (?instrs ! k) = 2 * int k" if "k < length ?instrs" for k
    using unpack_op_nth [OF that] by (simp add: decoded_spec_def)
  have 3: "\<exists>labels. find_labels e c = Inr labels"
    if ev: "even (length (co_code c))" and ha: "\<forall>op\<in>set (hasjrel e). HAVE_ARGUMENT e \<le> op"
  proof -
    have "oparg \<noteq> None"
      if m: "(offset, opcode, oparg) \<in> set ?instrs" and j: "opcode \<in> set (hasjrel e)"
      for offset opcode oparg
    proof -
      from m obtain k where k: "k < length ?instrs" "?instrs ! k = (offset, opcode, oparg)"
        by (auto simp: in_set_conv_nth)
      from j ha have "HAVE_ARGUMENT e \<le> opcode" by blast
      with unpack_op_nth [OF k(1)] k(2) show ?thesis
        by (auto simp: decoded_spec_def split: if_splits)
    qed
    then have "\<forall>(offset, opcode, oparg)\<in>set ?instrs.
                 opcode \<in> set (hasjrel e) \<longrightarrow> oparg \<noteq> None"
      by blast
    from labels_loop_returns [OF this, of "[]"] obtain labels where
      "labels_loop e ?instrs [] = Inr labels" by blast
    moreover have "snd (unpack_op e (co_code c)) = None"
      using ev by (rule unpack_op_even(1))
    ultimately show ?thesis
      by (cases "unpack_op e (co_code c)") (simp add: find_labels_def)
  qed
  from 1 2 3 show ?thesis by blast
qed

theorem find_labels_collects_witness:
  "find_labels cpython38
     (Code [110, 6, 113, 8, 110, 4, 113, 10] None None None None None [] 1) = Inr [Some 8, Some 10]
   \<and> even (length [110, 6, 113, 8, 110, 4, 113, 10 :: byte])
   \<and> hasjrel cpython38 = [93, 110, 122, 143, 154, 162]
   \<and> HAVE_ARGUMENT cpython38 \<le> 93"
  using find_labels_collects
          [of cpython38 "Code [110, 6, 113, 8, 110, 4, 113, 10] None None None None None [] 1"]
  by (simp add: find_labels_def unpack_op_def unpack_body_def cpython38_def
        range2_Suc_Suc range2_0 append_new_def jump_destinations_spec_def)

section \<open>Properties of the operand value resolver\<close>

text \<open>
  C1 (what the code does). For an opcode that reaches the relative-jump branch, the
  resolved value is the text \<^verbatim>\<open>"to "\<close> followed by the text of the function object
  \<^verbatim>\<open>get_argvalue\<close>, whatever the offset and the operand are: the destination
  \<open>offset + 2 + oparg\<close> is computed and dropped.
\<close>

theorem get_argvalue_relative_jump_text:
  assumes "opcode \<in> set (hasjrel e)"
    and "opcode \<notin> set (hasconst e)"
    and "opcode \<notin> set (hasname e)"
    and "co_cellvars c = Some cellvars"
    and "co_freevars c = Some freevars"
  shows "get_argvalue e offset c opcode (Some oparg) =
           Inr (PStr (''to '' @ repr_get_argvalue e))"
  using assms by (simp add: get_argvalue_def)

theorem get_argvalue_relative_jump_text_witness:
  "(110 :: int) \<in> set (hasjrel cpython38)
   \<and> (110 :: int) \<notin> set (hasconst cpython38)
   \<and> (110 :: int) \<notin> set (hasname cpython38)
   \<and> get_argvalue cpython38 20 (Code [] (Some []) (Some []) (Some []) (Some []) (Some []) [] 1)
         110 (Some 6) = Inr (PStr ''to <function get_argvalue at 0x7f3a5c0d1e50>'')
   \<and> get_argvalue cpython38 0 (Code [] (Some []) (Some []) (Some []) (Some []) (Some []) [] 1)
         110 (Some 0) = Inr (PStr ''to <function get_argvalue at 0x7f3a5c0d1e50>'')"
  using get_argvalue_relative_jump_text
          [of 110 cpython38 "Code [] (Some []) (Some []) (Some []) (Some []) (Some []) [] 1"
              "[]" "[]" 20 6]
        get_argvalue_relative_jump_text
          [of 110 cpython38 "Code [] (Some []) (Some []) (Some []) (Some []) (Some []) [] 1"
              "[]" "[]" 0 0]
  by (simp add: cpython38_def)

text \<open>
  C10 (what the code does). When \<^verbatim>\<open>co_cellvars\<close> or \<^verbatim>\<open>co_freevars\<close> is
  \<^verbatim>\<open>None\<close>, \<^verbatim>\<open>get_argvalue\<close> raises \<^verbatim>\<open>TypeError\<close> for every opcode and
  operand: the concatenation of the two comes before the dispatch, so the test
  \<^verbatim>\<open>cell_names is not None\<close> is never reached with \<^verbatim>\<open>None\<close>.
\<close>

theorem get_argvalue_cellvars_None:
  "get_argvalue e offset (Code bc cs vn ns None fv ln fl) opcode oparg = Inl TypeError
   \<and> get_argvalue e offset (Code bc cs vn ns cv None ln fl) opcode oparg = Inl TypeError"
  by (simp add: get_argvalue_def split: option.splits)

text \<open>
  The other three tables behave as C10 says: with the cell and free variable names
  present, a constant pool, name table or local-variable table that is \<^verbatim>\<open>None\<close>
  gives \<^verbatim>\<open>None\<close> for an opcode of its category.
\<close>

lemma get_argvalue_table_None:
  assumes "co_cellvars c = Some cellvars" and "co_freevars c = Some freevars"
  shows "opcode \<in> set (hasconst e) \<Longrightarrow> co_consts c = None
           \<Longrightarrow> get_argvalue e offset c opcode oparg = Inr PNone"
    and "opcode \<notin> set (hasconst e) \<Longrightarrow> opcode \<in> set (hasname e) \<Longrightarrow> co_names c = None
           \<Longrightarrow> get_argvalue e offset c opcode oparg = Inr PNone"
    and "opcode \<notin> set (hasconst e) \<Longrightarrow> opcode \<notin> set (hasname e)
           \<Longrightarrow> opcode \<notin> set (hasjrel e) \<Longrightarrow> opcode \<in> set (haslocal e)
           \<Longrightarrow> co_varnames c = None
           \<Longrightarrow> get_argvalue e offset c opcode oparg = Inr PNone"
  using assms by (simp_all add: get_argvalue_def)

section \<open>Properties of the disassembly engine\<close>

text \<open>
  C8. A value that is not a code object has no attribute \<^verbatim>\<open>co_code\<close>:
  \<^verbatim>\<open>disassemble\<close> raises \<^verbatim>\<open>TypeError\<close> and has printed nothing, no other pass
  having run.
\<close>

theorem disassemble_not_code:
  assumes "\<forall>c. v \<noteq> PCode c"
  shows "disassemble e v = ([], Some TypeError)"
  using assms by (cases v) simp_all

theorem disassemble_not_code_witness:
  "(\<forall>c. PInt 5 \<noteq> PCode c) \<and> disassemble cpython38 (PInt 5) = ([], Some TypeError)"
  using disassemble_not_code [of "PInt 5" cpython38] by simp






text \<open>
  An exception of \<^verbatim>\<open>find_labels\<close> leaves \<^verbatim>\<open>disassemble\<close> before anything is
  printed.
\<close>

lemma disassemble_labels_raise:
  assumes "find_labels e c = Inl x"
  shows "disassemble e (PCode c) = ([], Some x)"
  by (subst disassemble.simps(1)) (simp add: assms)






end
